theory Spec2Isabelle
  imports Main
begin

section \<open>The completion view of the statusbar command section\<close>

text \<open>
  A shallow embedding of \<^verbatim>\<open>qutebrowser/widgets/_completion.py\<close>, class
  \<^verbatim>\<open>CompletionView\<close>. The view shows a two-level tree: root rows are category
  headers, their children are the completion items.
\<close>

subsection \<open>Model indexes and the tree shown by the view\<close>

text \<open>
  A \<^verbatim>\<open>QModelIndex\<close> of the two-level tree: the invalid index, the header row of
  category \<open>c\<close>, or row \<open>r\<close> below the header of category \<open>c\<close>.
\<close>

datatype QModelIndex = Invalid | Category nat | Leaf nat nat

fun isValid :: "QModelIndex \<Rightarrow> bool" where
  "isValid Invalid = False"
| "isValid (Category c) = True"
| "isValid (Leaf c r) = True"

fun parent :: "QModelIndex \<Rightarrow> QModelIndex" where
  "parent Invalid = Invalid"
| "parent (Category c) = Invalid"
| "parent (Leaf c r) = Category c"

record item =
  text_of :: string
  desc :: string
  misc :: string
  marks :: "(nat \<times> nat) list"

record category =
  label :: string
  items :: "item list"

definition rowCount :: "category list \<Rightarrow> nat \<Rightarrow> nat" where
  "rowCount cats c = (if c < length cats then length (items (cats ! c)) else 0)"

fun in_model :: "category list \<Rightarrow> QModelIndex \<Rightarrow> bool" where
  "in_model cats Invalid = False"
| "in_model cats (Category c) = (c < length cats)"
| "in_model cats (Leaf c r) = (c < length cats \<and> r < rowCount cats c)"

text \<open>
  Modelled from the spec: \<^verbatim>\<open>item_count\<close>, \<^verbatim>\<open>first_item\<close>, \<^verbatim>\<open>last_item\<close> and
  \<^verbatim>\<open>data\<close> of the filter model (the class \<^verbatim>\<open>CompletionFilterModel\<close> is not part of
  the sources at hand). The item count is the number of items over all categories of
  the filtered tree; the first item is the first leaf of the first non-empty category,
  the last item the last leaf of the last non-empty category, and the invalid index
  when there is no leaf at all. The data of an index is its primary display text.
\<close>

definition item_count :: "category list \<Rightarrow> nat" where
  "item_count cats = sum_list (map (\<lambda>c. length (items c)) cats)"

definition first_item :: "category list \<Rightarrow> QModelIndex" where
  "first_item cats =
     (case filter (\<lambda>c. 0 < rowCount cats c) [0..<length cats] of
        [] \<Rightarrow> Invalid
      | c # _ \<Rightarrow> Leaf c 0)"

definition last_item :: "category list \<Rightarrow> QModelIndex" where
  "last_item cats =
     (case rev (filter (\<lambda>c. 0 < rowCount cats c) [0..<length cats]) of
        [] \<Rightarrow> Invalid
      | c # _ \<Rightarrow> Leaf c (rowCount cats c - 1))"

fun data :: "category list \<Rightarrow> QModelIndex \<Rightarrow> string option" where
  "data cats Invalid = None"
| "data cats (Category c) = (if c < length cats then Some (label (cats ! c)) else None)"
| "data cats (Leaf c r) =
     (if in_model cats (Leaf c r) then Some (text_of (items (cats ! c) ! r)) else None)"

text \<open>
  \<^verbatim>\<open>QTreeView.indexBelow\<close> and \<^verbatim>\<open>QTreeView.indexAbove\<close> of the toolkit, for a tree
  whose categories are all expanded (\<^verbatim>\<open>set_model\<close> calls \<^verbatim>\<open>expandAll\<close>): the next and the
  previous row in display order, headers included, and the invalid index past either
  end or for an index that is not in the tree.
\<close>

fun indexBelow :: "category list \<Rightarrow> QModelIndex \<Rightarrow> QModelIndex" where
  "indexBelow cats Invalid = Invalid"
| "indexBelow cats (Category c) =
     (if \<not> c < length cats then Invalid
      else if 0 < rowCount cats c then Leaf c 0
      else if Suc c < length cats then Category (Suc c)
      else Invalid)"
| "indexBelow cats (Leaf c r) =
     (if \<not> in_model cats (Leaf c r) then Invalid
      else if Suc r < rowCount cats c then Leaf c (Suc r)
      else if Suc c < length cats then Category (Suc c)
      else Invalid)"

fun indexAbove :: "category list \<Rightarrow> QModelIndex \<Rightarrow> QModelIndex" where
  "indexAbove cats Invalid = Invalid"
| "indexAbove cats (Category c) =
     (if \<not> c < length cats then Invalid
      else (case c of
              0 \<Rightarrow> Invalid
            | Suc p \<Rightarrow> if 0 < rowCount cats p then Leaf p (rowCount cats p - 1)
                       else Category p))"
| "indexAbove cats (Leaf c r) =
     (if \<not> in_model cats (Leaf c r) then Invalid
      else (case r of 0 \<Rightarrow> Category c | Suc q \<Rightarrow> Leaf c q))"

subsection \<open>The navigator: \<^verbatim>\<open>_next_idx\<close>\<close>

text \<open>
  The \<^verbatim>\<open>while True\<close> loop of \<^verbatim>\<open>_next_idx\<close>, started at a valid current index. The
  result is the index found and the argument of \<^verbatim>\<open>scrollTo\<close>, when the loop calls it.
\<close>

fun loop_measure :: "category list \<Rightarrow> bool \<Rightarrow> QModelIndex \<Rightarrow> nat" where
  "loop_measure cats upwards Invalid = 0"
| "loop_measure cats upwards (Category c) =
     (if upwards then 2 * c else 2 * (length cats - c))"
| "loop_measure cats upwards (Leaf c r) =
     (if upwards then 2 * c + 1 else 2 * (length cats - c) + 1)"

function next_idx_loop ::
  "category list \<Rightarrow> bool \<Rightarrow> QModelIndex \<Rightarrow> QModelIndex \<times> QModelIndex option" where
  "next_idx_loop cats upwards idx =
     (let idx' = (if upwards then indexAbove cats idx else indexBelow cats idx) in
      if \<not> isValid idx' \<and> upwards then (last_item cats, None)
      else if \<not> isValid idx' \<and> \<not> upwards then
        (first_item cats, Some (parent (first_item cats)))
      else if isValid (parent idx') then (idx', None)
      else next_idx_loop cats upwards idx')"
  by pat_completeness auto
termination
proof (relation "measure (\<lambda>(cats, upwards, idx). loop_measure cats upwards idx)")
  show "wf (measure (\<lambda>(cats, upwards, idx). loop_measure cats upwards idx))"
    by simp
next
  fix cats :: "category list" and upwards :: bool and idx idx' :: QModelIndex
  assume step: "idx' = (if upwards then indexAbove cats idx else indexBelow cats idx)"
    and n1: "\<not> (\<not> isValid idx' \<and> upwards)"
    and n2: "\<not> (\<not> isValid idx' \<and> \<not> upwards)"
    and hdr: "\<not> isValid (parent idx')"
  have "loop_measure cats upwards idx' < loop_measure cats upwards idx"
  proof (cases idx)
    case Invalid
    with step n1 n2 show ?thesis by (cases upwards) auto
  next
    case (Category c)
    with step n1 n2 hdr show ?thesis
      by (cases upwards) (auto split: if_splits nat.splits)
  next
    case (Leaf c r)
    with step n1 n2 hdr show ?thesis
      by (cases upwards) (auto split: if_splits nat.splits)
  qed
  then show "((cats, upwards, idx'), (cats, upwards, idx))
      \<in> measure (\<lambda>(cats, upwards, idx). loop_measure cats upwards idx)"
    by simp
qed

declare next_idx_loop.simps [simp del]

text \<open>
  \<^verbatim>\<open>_next_idx\<close> as a function of the tree shown and of the current index: with no
  valid current index it returns \<^verbatim>\<open>first_item()\<close> at once, whatever the direction.
\<close>

definition next_idx_from ::
  "category list \<Rightarrow> QModelIndex \<Rightarrow> bool \<Rightarrow> QModelIndex \<times> QModelIndex option" where
  "next_idx_from cats idx upwards =
     (if \<not> isValid idx then (first_item cats, None)
      else next_idx_loop cats upwards idx)"

subsection \<open>Exceptions and results\<close>

datatype py_error = IndexError | AttributeError

text \<open>
  A call either returns or raises; in both cases the state it leaves behind is kept,
  since the attributes assigned before a \<^verbatim>\<open>raise\<close> stay assigned.
\<close>

datatype 'a outcome = Returned 'a | Raised py_error 'a

fun state_of :: "'a outcome \<Rightarrow> 'a" where
  "state_of (Returned s) = s"
| "state_of (Raised e s) = s"

text \<open>The exception a call ended with, if any.\<close>

fun raises :: "'a outcome \<Rightarrow> py_error option" where
  "raises (Returned s) = None"
| "raises (Raised e s) = Some e"

text \<open>Python's \<^verbatim>\<open>xs[i]\<close>: an index below zero counts from the end of the list.\<close>

definition getitem :: "'a list \<Rightarrow> int \<Rightarrow> py_error + 'a" where
  "getitem xs i =
     (if 0 \<le> i \<and> i < int (length xs) then Inr (xs ! nat i)
      else if i < 0 \<and> - int (length xs) \<le> i then Inr (xs ! nat (int (length xs) + i))
      else Inl IndexError)"

subsection \<open>The state of the view and its collaborators\<close>

text \<open>
  A filter model object: the categories of its source model and the pattern set on it.
  Model objects are shared (the completer keeps them, \<^verbatim>\<open>_model\<close> and \<^verbatim>\<open>_lastmodel\<close> refer
  to them), so the view holds references into a store of model objects.
\<close>

record completion_model =
  srcmodel :: "category list"
  pattern :: string

type_synonym ref = nat

text \<open>A \<^verbatim>\<open>textChanged\<close> event: prefix, parts, cursor part.\<close>

type_synonym text_change = "string \<times> string list \<times> int"

record view =
  enabled :: bool
  ignore_change :: bool
  model :: "ref option"
  lastmodel :: "ref option"
  visible :: bool
  current :: QModelIndex
  heap :: "ref \<Rightarrow> completion_model"
  emitted :: "(string \<times> bool) list"
  scrolled :: "QModelIndex list"

text \<open>
  What the view uses and the sources at hand do not contain, taken as parameters:
  \<^item> \<open>get_new_completion\<close>: \<^verbatim>\<open>Completer._get_new_completion\<close>, the model object for the
    command line or \<^verbatim>\<open>None\<close>;
  \<^item> \<open>models\<close>: the model objects as they are when the view is created;
  \<^item> \<open>filter_accepts\<close>: the matching policy of the filter model, pattern first;
  \<^item> \<open>get_marks\<close>: the match spans \<^verbatim>\<open>mark_all_items\<close> stores for a needle and a text;
  \<^item> \<open>track_current\<close>: where the toolkit leaves the current index when the rows of the
    model change under it (old tree, new tree, old current index);
  \<^item> \<open>config_show\<close>, \<open>quick_complete\<close>: the configuration options
    \<^verbatim>\<open>completion.show\<close> and \<^verbatim>\<open>completion.quick-complete\<close>;
  \<^item> \<open>listener\<close>: the slots connected to \<^verbatim>\<open>change_completed_part\<close>, as the
    \<^verbatim>\<open>textChanged\<close> events they send back to the view before the emission returns.
\<close>

record env =
  get_new_completion :: "string list \<Rightarrow> int \<Rightarrow> ref option"
  models :: "ref \<Rightarrow> completion_model"
  filter_accepts :: "string \<Rightarrow> item \<Rightarrow> bool"
  get_marks :: "string \<Rightarrow> string \<Rightarrow> (nat \<times> nat) list"
  track_current :: "category list \<Rightarrow> category list \<Rightarrow> QModelIndex \<Rightarrow> QModelIndex"
  config_show :: bool
  quick_complete :: bool
  listener :: "string \<Rightarrow> bool \<Rightarrow> text_change list"

text \<open>The tree the view shows for a model object: the items that pass the filter.\<close>

definition shown :: "env \<Rightarrow> completion_model \<Rightarrow> category list" where
  "shown env m =
     map (\<lambda>c. c\<lparr>items := filter (filter_accepts env (pattern m)) (items c)\<rparr>) (srcmodel m)"

definition mark_all_items :: "env \<Rightarrow> string \<Rightarrow> completion_model \<Rightarrow> completion_model" where
  "mark_all_items env needle m =
     m\<lparr>srcmodel :=
         map (\<lambda>c. c\<lparr>items :=
                map (\<lambda>it. if filter_accepts env (pattern m) it
                           then it\<lparr>marks := get_marks env needle (text_of it)\<rparr> else it)
                    (items c)\<rparr>)
             (srcmodel m)\<rparr>"

text \<open>\<^verbatim>\<open>__init__\<close>: the flag is off, no model is set, the view is hidden.\<close>

definition init :: "env \<Rightarrow> view" where
  "init env =
     \<lparr>enabled = config_show env, ignore_change = False, model = None, lastmodel = None,
      visible = False, current = Invalid, heap = models env, emitted = [], scrolled = []\<rparr>"

definition hide :: "view \<Rightarrow> view" where
  "hide st = st\<lparr>visible := False\<rparr>"

definition show_view :: "view \<Rightarrow> view" where
  "show_view st = st\<lparr>visible := True\<rparr>"

text \<open>
  \<^verbatim>\<open>set_model\<close>: \<^verbatim>\<open>setModel\<close> installs a fresh selection model, so no index is current
  afterwards. Expanding, column sizes and \<^verbatim>\<open>resize_completion\<close> concern the rendering
  only and are left out.
\<close>

definition set_model :: "view \<Rightarrow> ref \<Rightarrow> view" where
  "set_model st r = st\<lparr>model := Some r, current := Invalid\<rparr>"

subsection \<open>\<^verbatim>\<open>on_update_completion\<close>\<close>

text \<open>
  Lines 251 to 261, which both ways through the model comparison reach: the pattern is
  read from the parts, set on \<^verbatim>\<open>self._model\<close>, and the view is shown or hidden.
\<close>

definition apply_pattern :: "env \<Rightarrow> view \<Rightarrow> string list \<Rightarrow> int \<Rightarrow> view outcome" where
  "apply_pattern env st parts cursor_part =
     (case (if parts \<noteq> [] then getitem parts cursor_part else Inr []) of
        Inl e \<Rightarrow> Raised e st
      | Inr pat \<Rightarrow>
          (case model st of
             None \<Rightarrow> Raised AttributeError st
           | Some r \<Rightarrow>
               let old = shown env (heap st r);
                   m1 = (heap st r)\<lparr>pattern := pat\<rparr>;
                   st1 = st\<lparr>heap := (heap st)(r := m1),
                           current := track_current env old (shown env m1) (current st)\<rparr>
               in if item_count (shown env m1) = 0 then Returned (hide st1)
                  else let st2 = st1\<lparr>heap := (heap st1)(r := mark_all_items env pat m1)\<rparr>
                       in if enabled st2 then Returned (show_view st2) else Returned st2))"

text \<open>Lines 223 to 249: what the handler does once the guard has let the event in.\<close>

definition update_completion :: "env \<Rightarrow> view \<Rightarrow> text_change \<Rightarrow> view outcome" where
  "update_completion env st ev =
     (case ev of (prefix, parts, cursor_part) \<Rightarrow>
        if prefix \<noteq> '':'' then Returned (hide st)
        else let new = get_new_completion env parts cursor_part in
          if new \<noteq> lastmodel st then
            (case new of
               None \<Rightarrow> Returned (hide (st\<lparr>lastmodel := new\<rparr>))
             | Some r \<Rightarrow> apply_pattern env (set_model (st\<lparr>lastmodel := new\<rparr>) r) parts cursor_part)
          else
            (case new of
               None \<Rightarrow> Returned st
             | Some r \<Rightarrow> apply_pattern env st parts cursor_part))"

definition on_update_completion :: "env \<Rightarrow> view \<Rightarrow> text_change \<Rightarrow> view outcome" where
  "on_update_completion env st ev =
     (if ignore_change st then Returned st else update_completion env st ev)"

subsection \<open>\<^verbatim>\<open>selectionChanged\<close> and the emission of \<^verbatim>\<open>change_completed_part\<close>\<close>

text \<open>
  An emission calls the connected slots before it returns. They answer with
  \<^verbatim>\<open>textChanged\<close> events, which reach \<^verbatim>\<open>on_update_completion\<close> one after the other.
  An exception raised in a slot is reported by the toolkit binding at the slot and
  does not travel back through \<^verbatim>\<open>emit\<close>; the state the slot left is kept.
\<close>

definition deliver :: "env \<Rightarrow> view \<Rightarrow> text_change list \<Rightarrow> view" where
  "deliver env st evs = fold (\<lambda>ev s. state_of (on_update_completion env s ev)) evs st"

definition emit_change_completed_part :: "env \<Rightarrow> view \<Rightarrow> string \<Rightarrow> bool \<Rightarrow> view" where
  "emit_change_completed_part env st txt immediate =
     deliver env (st\<lparr>emitted := emitted st @ [(txt, immediate)]\<rparr>) (listener env txt immediate)"

definition selectionChanged :: "env \<Rightarrow> view \<Rightarrow> QModelIndex list \<Rightarrow> view outcome" where
  "selectionChanged env st indexes =
     (case indexes of
        [] \<Rightarrow> Returned st
      | i # _ \<Rightarrow>
          (case model st of
             None \<Rightarrow> Raised AttributeError st
           | Some r \<Rightarrow>
               (case data (shown env (heap st r)) i of
                  None \<Rightarrow> Returned st
                | Some d \<Rightarrow>
                    if item_count (shown env (heap st r)) = 1 \<and> quick_complete env
                    then Returned (emit_change_completed_part env st d True)
                    else Returned
                      ((emit_change_completed_part env (st\<lparr>ignore_change := True\<rparr>) d False)
                         \<lparr>ignore_change := False\<rparr>))))"

subsection \<open>Tab and shift-tab\<close>

text \<open>
  \<^verbatim>\<open>_next_idx\<close> on the state: without a model there is no selection model to ask, and
  \<^verbatim>\<open>self.selectionModel().currentIndex()\<close> raises.
\<close>

definition next_idx :: "env \<Rightarrow> view \<Rightarrow> bool \<Rightarrow> py_error + QModelIndex \<times> view" where
  "next_idx env st upwards =
     (case model st of
        None \<Rightarrow> Inl AttributeError
      | Some r \<Rightarrow>
          (case next_idx_from (shown env (heap st r)) (current st) upwards of
             (idx, None) \<Rightarrow> Inr (idx, st)
           | (idx, Some p) \<Rightarrow> Inr (idx, st\<lparr>scrolled := scrolled st @ [p]\<rparr>)))"

text \<open>
  \<^verbatim>\<open>setCurrentIndex\<close> with \<^verbatim>\<open>ClearAndSelect | Rows\<close>: the row of the index becomes the
  selection, and the toolkit calls \<^verbatim>\<open>selectionChanged\<close> with the newly selected indexes
  when the selection is another one than before.
\<close>

definition setCurrentIndex :: "env \<Rightarrow> view \<Rightarrow> QModelIndex \<Rightarrow> view outcome" where
  "setCurrentIndex env st idx =
     (if idx = current st then Returned st
      else selectionChanged env (st\<lparr>current := idx\<rparr>) (if isValid idx then [idx] else []))"

definition next_prev_item :: "env \<Rightarrow> view \<Rightarrow> bool \<Rightarrow> view outcome" where
  "next_prev_item env st prev =
     (if \<not> visible st then Returned st
      else (case next_idx env st prev of
              Inl e \<Rightarrow> Raised e st
            | Inr (idx, st1) \<Rightarrow> setCurrentIndex env st1 idx))"

definition completion_item_prev :: "env \<Rightarrow> view \<Rightarrow> view outcome" where
  "completion_item_prev env st = next_prev_item env st True"

definition completion_item_next :: "env \<Rightarrow> view \<Rightarrow> view outcome" where
  "completion_item_next env st = next_prev_item env st False"

definition on_clear_completion_selection :: "view \<Rightarrow> view" where
  "on_clear_completion_selection st =
     (case model st of None \<Rightarrow> st | Some r \<Rightarrow> st\<lparr>current := Invalid\<rparr>)"

subsection \<open>The states the view can be in between two events\<close>

inductive reachable :: "env \<Rightarrow> view \<Rightarrow> bool" for env :: env where
  created: "reachable env (init env)"
| text_changed: "reachable env st \<Longrightarrow> reachable env (state_of (on_update_completion env st ev))"
| tab: "reachable env st \<Longrightarrow> reachable env (state_of (completion_item_next env st))"
| shift_tab: "reachable env st \<Longrightarrow> reachable env (state_of (completion_item_prev env st))"
| clicked: "reachable env st \<Longrightarrow> reachable env (state_of (setCurrentIndex env st idx))"
| selection: "reachable env st \<Longrightarrow> reachable env (state_of (selectionChanged env st idxs))"
| cleared: "reachable env st \<Longrightarrow> reachable env (on_clear_completion_selection st)"
| config_changed: "reachable env st \<Longrightarrow> reachable env (st\<lparr>enabled := b\<rparr>)"

definition view_inv :: "view \<Rightarrow> bool" where
  "view_inv st \<longleftrightarrow>
     \<not> ignore_change st \<and>
     (visible st \<longrightarrow> lastmodel st \<noteq> None) \<and>
     (lastmodel st \<noteq> None \<longrightarrow> model st = lastmodel st)"

subsection \<open>The leaves in display order\<close>

text \<open>
  The leaves of the categories \<open>a\<close> up to \<open>b\<close> (not included) from top to bottom, all
  leaves of the tree, and the place of a leaf among them.
\<close>

definition leaves_between :: "category list \<Rightarrow> nat \<Rightarrow> nat \<Rightarrow> QModelIndex list" where
  "leaves_between cats a b = concat (map (\<lambda>c. map (Leaf c) [0..<rowCount cats c]) [a..<b])"

definition leaves :: "category list \<Rightarrow> QModelIndex list" where
  "leaves cats = leaves_between cats 0 (length cats)"

definition pos :: "category list \<Rightarrow> nat \<Rightarrow> nat \<Rightarrow> nat" where
  "pos cats c r = length (leaves_between cats 0 c) + r"

subsection \<open>A command line to run the view on\<close>

text \<open>
  Modelled from the spec: one setting of the parameters above, for the classes
  \<^verbatim>\<open>Completer\<close> and \<^verbatim>\<open>CompletionFilterModel\<close> and the statusbar, none of which is
  part of the sources at hand. The filter matches by substring containment, which the
  empty pattern satisfies for every item; the registry of completion sources gives the
  command names for the first part and the values of a setting for the part after
  \<^verbatim>\<open>set\<close>; the statusbar answers every emission with one \<^verbatim>\<open>textChanged\<close> event
  for the text it was handed. The theorems below hold for every setting of the
  parameters; this one serves to run the handlers on concrete command lines.
\<close>

definition mk_item :: "string \<Rightarrow> item" where
  "mk_item t = \<lparr>text_of = t, desc = [], misc = [], marks = []\<rparr>"

fun startswith :: "string \<Rightarrow> string \<Rightarrow> bool" where
  "startswith [] ys = True"
| "startswith (x # xs) [] = False"
| "startswith (x # xs) (y # ys) = (x = y \<and> startswith xs ys)"

fun contains :: "string \<Rightarrow> string \<Rightarrow> bool" where
  "contains needle [] = (needle = [])"
| "contains needle (y # ys) = (startswith needle (y # ys) \<or> contains needle ys)"

definition example_tree :: "category list" where
  "example_tree =
     [\<lparr>label = ''Commands'', items = [mk_item ''open'', mk_item ''open-tab'']\<rparr>,
      \<lparr>label = ''Aliases'', items = []\<rparr>,
      \<lparr>label = ''Settings'', items = [mk_item ''set'']\<rparr>]"

definition command_model :: completion_model where
  "command_model = \<lparr>srcmodel = example_tree, pattern = []\<rparr>"

definition value_model :: completion_model where
  "value_model =
     \<lparr>srcmodel = [\<lparr>label = ''Current'', items = [mk_item []]\<rparr>,
                  \<lparr>label = ''Allowed'', items = [mk_item ''false'', mk_item ''true'']\<rparr>],
      pattern = []\<rparr>"

definition example_env :: env where
  "example_env =
     \<lparr>get_new_completion =
        (\<lambda>parts cursor_part.
           if cursor_part = 0 then Some 0
           else if parts \<noteq> [] \<and> hd parts = ''set'' \<and> cursor_part = 1 then Some 1
           else None),
      models = (\<lambda>r. if r = 0 then command_model else value_model),
      filter_accepts = (\<lambda>pat it. contains pat (text_of it)),
      get_marks = (\<lambda>needle txt. if needle \<noteq> [] \<and> startswith needle txt
                                  then [(0, length needle)] else []),
      track_current = (\<lambda>old new idx. if in_model new idx then idx else Invalid),
      config_show = True,
      quick_complete = True,
      listener = (\<lambda>txt immediate. [('':'', [txt], 0)])\<rparr>"

definition typed_open :: view where
  "typed_open = state_of (on_update_completion example_env (init example_env) ('':'', [''open-''], 0))"

definition typed_set :: view where
  "typed_set = state_of (on_update_completion example_env (init example_env) ('':'', [''set'', []], 1))"

section \<open>Properties of the navigator\<close>

subsection \<open>The list of leaves\<close>

lemma leaves_between_empty [simp]: "b \<le> a \<Longrightarrow> leaves_between cats a b = []"
  by (simp add: leaves_between_def)

lemma leaves_between_first:
  "a < b \<Longrightarrow> leaves_between cats a b =
     map (Leaf a) [0..<rowCount cats a] @ leaves_between cats (Suc a) b"
  by (simp add: leaves_between_def upt_conv_Cons)

lemma leaves_between_last:
  "a \<le> b \<Longrightarrow> leaves_between cats a (Suc b) =
     leaves_between cats a b @ map (Leaf b) [0..<rowCount cats b]"
  by (simp add: leaves_between_def)

lemma leaves_between_split:
  "a \<le> c \<Longrightarrow> c \<le> b \<Longrightarrow>
   leaves_between cats a b = leaves_between cats a c @ leaves_between cats c b"
proof -
  assume "a \<le> c" "c \<le> b"
  then have "[a..<b] = [a..<c] @ [c..<b]"
    by (metis le_Suc_ex upt_add_eq_append)
  then show ?thesis by (simp add: leaves_between_def)
qed

lemma leaves_split_at:
  "c < length cats \<Longrightarrow>
   leaves cats = leaves_between cats 0 c @ map (Leaf c) [0..<rowCount cats c]
                 @ leaves_between cats (Suc c) (length cats)"
  unfolding leaves_def
  using leaves_between_split [of 0 c "length cats" cats] leaves_between_first [of c "length cats" cats]
  by simp

lemma length_leaves: "length (leaves cats) = item_count cats"
proof -
  have "map (\<lambda>c. rowCount cats c) [0..<length cats] = map (\<lambda>c. length (items c)) cats"
    by (rule nth_equalityI) (simp_all add: rowCount_def)
  then show ?thesis
    by (simp add: leaves_def leaves_between_def item_count_def length_concat comp_def)
qed

lemma first_of_list:
  "(case filter (\<lambda>c. 0 < rowCount cats c) cs of [] \<Rightarrow> Invalid | c # _ \<Rightarrow> Leaf c 0) =
   (case concat (map (\<lambda>c. map (Leaf c) [0..<rowCount cats c]) cs) of [] \<Rightarrow> Invalid | l # _ \<Rightarrow> l)"
proof (induction cs)
  case Nil
  show ?case by simp
next
  case (Cons c cs)
  show ?case
  proof (cases "0 < rowCount cats c")
    case True
    then show ?thesis by (simp add: upt_conv_Cons)
  next
    case False
    with Cons show ?thesis by simp
  qed
qed

lemma first_item_leaves:
  "first_item cats = (case leaves cats of [] \<Rightarrow> Invalid | l # _ \<Rightarrow> l)"
  unfolding first_item_def leaves_def leaves_between_def by (rule first_of_list)

lemma last_of_list:
  "(case rev (filter (\<lambda>c. 0 < rowCount cats c) cs) of
      [] \<Rightarrow> Invalid | c # _ \<Rightarrow> Leaf c (rowCount cats c - 1)) =
   (case rev (concat (map (\<lambda>c. map (Leaf c) [0..<rowCount cats c]) cs)) of
      [] \<Rightarrow> Invalid | l # _ \<Rightarrow> l)"
proof (induction cs rule: rev_induct)
  case Nil
  show ?case by simp
next
  case (snoc c cs)
  show ?case
  proof (cases "rowCount cats c")
    case 0
    with snoc show ?thesis by simp
  next
    case (Suc k)
    then show ?thesis by simp
  qed
qed

lemma last_item_leaves:
  "last_item cats = (case rev (leaves cats) of [] \<Rightarrow> Invalid | l # _ \<Rightarrow> l)"
  unfolding last_item_def leaves_def leaves_between_def by (rule last_of_list)

lemma nth_pos:
  assumes "in_model cats (Leaf c r)"
  shows "pos cats c r < length (leaves cats)" and "leaves cats ! pos cats c r = Leaf c r"
proof -
  from assms have c: "c < length cats" and r: "r < rowCount cats c" by simp_all
  note sp = leaves_split_at [OF c]
  show "pos cats c r < length (leaves cats)"
    using r by (simp add: sp pos_def)
  show "leaves cats ! pos cats c r = Leaf c r"
    using r by (simp add: sp pos_def nth_append)
qed

lemma pos_nth_between:
  "b \<le> length cats \<Longrightarrow> j < length (leaves_between cats 0 b) \<Longrightarrow>
   \<exists>c r. leaves_between cats 0 b ! j = Leaf c r \<and> c < b \<and> r < rowCount cats c \<and> pos cats c r = j"
proof (induction b)
  case 0
  then show ?case by simp
next
  case (Suc b)
  let ?pre = "leaves_between cats 0 b"
  have sp: "leaves_between cats 0 (Suc b) = ?pre @ map (Leaf b) [0..<rowCount cats b]"
    by (simp add: leaves_between_last)
  show ?case
  proof (cases "j < length ?pre")
    case True
    with Suc obtain c r where "?pre ! j = Leaf c r" "c < b" "r < rowCount cats c" "pos cats c r = j"
      by auto
    with True show ?thesis by (auto simp: sp nth_append)
  next
    case False
    with Suc.prems have "j - length ?pre < rowCount cats b" by (simp add: sp)
    with False show ?thesis
      by (intro exI [of _ b] exI [of _ "j - length ?pre"]) (simp add: sp nth_append pos_def)
  qed
qed

lemma pos_nth:
  assumes "j < length (leaves cats)"
  shows "\<exists>c r. leaves cats ! j = Leaf c r \<and> in_model cats (Leaf c r) \<and> pos cats c r = j"
  using pos_nth_between [of "length cats" cats j] assms by (auto simp: leaves_def)

subsection \<open>What the loop returns\<close>

lemma first_item_in_model: "first_item cats = Invalid \<or> (\<exists>c. first_item cats = Leaf c 0 \<and> in_model cats (Leaf c 0))"
proof (cases "filter (\<lambda>c. 0 < rowCount cats c) [0..<length cats]")
  case Nil
  then show ?thesis by (simp add: first_item_def)
next
  case (Cons c cs)
  then have "c \<in> set (filter (\<lambda>c. 0 < rowCount cats c) [0..<length cats])" by simp
  then have "c < length cats \<and> 0 < rowCount cats c" by simp
  with Cons show ?thesis by (simp add: first_item_def)
qed

lemma last_item_in_model:
  "last_item cats = Invalid \<or> (\<exists>c r. last_item cats = Leaf c r \<and> in_model cats (Leaf c r))"
proof (cases "rev (filter (\<lambda>c. 0 < rowCount cats c) [0..<length cats])")
  case Nil
  then show ?thesis by (simp add: last_item_def)
next
  case (Cons c cs)
  then have "c \<in> set (rev (filter (\<lambda>c. 0 < rowCount cats c) [0..<length cats]))" by simp
  then have "c < length cats \<and> 0 < rowCount cats c" by simp
  with Cons show ?thesis by (simp add: last_item_def)
qed

lemma indexBelow_in_model: "indexBelow cats idx = Invalid \<or> in_model cats (indexBelow cats idx)"
  by (cases idx) auto

lemma indexAbove_in_model: "indexAbove cats idx = Invalid \<or> in_model cats (indexAbove cats idx)"
  by (cases idx) (auto split: nat.splits)

lemma loop_leaf_or_none:
  "fst (next_idx_loop cats upwards idx) = Invalid \<or>
   (in_model cats (fst (next_idx_loop cats upwards idx)) \<and>
    isValid (parent (fst (next_idx_loop cats upwards idx))))"
proof (induction cats upwards idx rule: next_idx_loop.induct)
  case (1 cats upwards idx)
  define idx' where "idx' = (if upwards then indexAbove cats idx else indexBelow cats idx)"
  have stepped: "idx' = Invalid \<or> in_model cats idx'"
    using indexBelow_in_model [of cats idx] indexAbove_in_model [of cats idx]
    by (simp add: idx'_def)
  have unfold: "next_idx_loop cats upwards idx =
      (if \<not> isValid idx' \<and> upwards then (last_item cats, None)
       else if \<not> isValid idx' \<and> \<not> upwards then (first_item cats, Some (parent (first_item cats)))
       else if isValid (parent idx') then (idx', None)
       else next_idx_loop cats upwards idx')"
    by (subst next_idx_loop.simps) (simp add: idx'_def Let_def)
  show ?case
  proof (cases "isValid idx'")
    case False
    then have "fst (next_idx_loop cats upwards idx) =
        (if upwards then last_item cats else first_item cats)"
      by (simp add: unfold)
    then show ?thesis
      using first_item_in_model [of cats] last_item_in_model [of cats] by auto
  next
    case valid: True
    show ?thesis
    proof (cases "isValid (parent idx')")
      case True
      with stepped valid show ?thesis by (auto simp: unfold)
    next
      case False
      with valid have "next_idx_loop cats upwards idx = next_idx_loop cats upwards idx'"
        by (simp add: unfold)
      moreover have "fst (next_idx_loop cats upwards idx') = Invalid \<or>
         (in_model cats (fst (next_idx_loop cats upwards idx')) \<and>
          isValid (parent (fst (next_idx_loop cats upwards idx'))))"
        using "1.IH" [of idx'] valid False by (simp add: idx'_def)
      ultimately show ?thesis by simp
    qed
  qed
qed

lemma loop_down_header:
  "c < length cats \<Longrightarrow>
   fst (next_idx_loop cats False (Category c)) =
     (case leaves_between cats c (length cats) of [] \<Rightarrow> first_item cats | l # _ \<Rightarrow> l)"
proof (induction "length cats - c" arbitrary: c)
  case 0
  then show ?case by simp
next
  case (Suc k)
  have lb: "leaves_between cats c (length cats) =
      map (Leaf c) [0..<rowCount cats c] @ leaves_between cats (Suc c) (length cats)"
    using Suc.prems by (rule leaves_between_first)
  show ?case
  proof (cases "0 < rowCount cats c")
    case True
    then show ?thesis
      using Suc.prems by (subst next_idx_loop.simps) (simp add: lb upt_conv_Cons)
  next
    case False
    show ?thesis
    proof (cases "Suc c < length cats")
      case True
      have "fst (next_idx_loop cats False (Category c)) =
            fst (next_idx_loop cats False (Category (Suc c)))"
        using Suc.prems False True by (subst next_idx_loop.simps) simp
      also have "\<dots> = (case leaves_between cats (Suc c) (length cats) of
                          [] \<Rightarrow> first_item cats | l # _ \<Rightarrow> l)"
        using Suc.hyps True by (intro Suc.hyps(1)) simp_all
      finally show ?thesis using False by (simp add: lb)
    next
      case nomore: False
      then show ?thesis
        using Suc.prems False by (subst next_idx_loop.simps) (simp add: lb)
    qed
  qed
qed

lemma loop_down_leaf:
  assumes "in_model cats (Leaf c r)"
  shows "fst (next_idx_loop cats False (Leaf c r)) =
     (if Suc r < rowCount cats c then Leaf c (Suc r)
      else case leaves_between cats (Suc c) (length cats) of
             [] \<Rightarrow> first_item cats | l # _ \<Rightarrow> l)"
proof (cases "Suc r < rowCount cats c")
  case True
  with assms show ?thesis by (subst next_idx_loop.simps) simp
next
  case False
  show ?thesis
  proof (cases "Suc c < length cats")
    case True
    have "fst (next_idx_loop cats False (Leaf c r)) =
          fst (next_idx_loop cats False (Category (Suc c)))"
      using assms False True by (subst next_idx_loop.simps) simp
    with False True show ?thesis by (simp add: loop_down_header)
  next
    case nomore: False
    with assms False show ?thesis by (subst next_idx_loop.simps) simp
  qed
qed

lemma loop_up_header:
  "c < length cats \<Longrightarrow>
   fst (next_idx_loop cats True (Category c)) =
     (case rev (leaves_between cats 0 c) of [] \<Rightarrow> last_item cats | l # _ \<Rightarrow> l)"
proof (induction c)
  case 0
  then show ?case by (subst next_idx_loop.simps) simp
next
  case (Suc p)
  have lb: "leaves_between cats 0 (Suc p) =
      leaves_between cats 0 p @ map (Leaf p) [0..<rowCount cats p]"
    by (simp add: leaves_between_last)
  show ?case
  proof (cases "rowCount cats p")
    case 0
    have "fst (next_idx_loop cats True (Category (Suc p))) =
          fst (next_idx_loop cats True (Category p))"
      using Suc.prems 0 by (subst next_idx_loop.simps) simp
    with Suc 0 show ?thesis by (simp add: lb)
  next
    case (Suc k)
    then show ?thesis
      using Suc.prems by (subst next_idx_loop.simps) (simp add: lb)
  qed
qed

lemma loop_up_leaf:
  assumes "in_model cats (Leaf c r)"
  shows "fst (next_idx_loop cats True (Leaf c r)) =
     (case r of
        0 \<Rightarrow> (case rev (leaves_between cats 0 c) of [] \<Rightarrow> last_item cats | l # _ \<Rightarrow> l)
      | Suc q \<Rightarrow> Leaf c q)"
proof (cases r)
  case 0
  have "fst (next_idx_loop cats True (Leaf c r)) = fst (next_idx_loop cats True (Category c))"
    using assms 0 by (subst next_idx_loop.simps) simp
  with assms 0 show ?thesis by (simp add: loop_up_header)
next
  case (Suc q)
  with assms show ?thesis by (subst next_idx_loop.simps) simp
qed

subsection \<open>One step moves one place along the leaves, cyclically\<close>

lemma step_down:
  assumes j: "j < length (leaves cats)"
  shows "fst (next_idx_from cats (leaves cats ! j) False) =
         leaves cats ! ((j + 1) mod length (leaves cats))"
proof -
  let ?n = "length (leaves cats)"
  from pos_nth [OF j] obtain c r where
    l: "leaves cats ! j = Leaf c r" and m: "in_model cats (Leaf c r)" and p: "pos cats c r = j"
    by blast
  from m have c: "c < length cats" and r: "r < rowCount cats c" by simp_all
  note sp = leaves_split_at [OF c]
  have nav: "fst (next_idx_from cats (leaves cats ! j) False) =
     (if Suc r < rowCount cats c then Leaf c (Suc r)
      else case leaves_between cats (Suc c) (length cats) of
             [] \<Rightarrow> first_item cats | l # _ \<Rightarrow> l)"
    by (simp add: l next_idx_from_def loop_down_leaf [OF m])
  show ?thesis
  proof (cases "Suc r < rowCount cats c")
    case True
    then have m': "in_model cats (Leaf c (Suc r))" using c by simp
    have "pos cats c (Suc r) = j + 1" using p by (simp add: pos_def)
    with nth_pos [OF m'] have "j + 1 < ?n" "leaves cats ! (j + 1) = Leaf c (Suc r)" by simp_all
    with True show ?thesis by (simp add: nav)
  next
    case False
    with r have last: "Suc r = rowCount cats c" by simp
    define pre where "pre = leaves_between cats 0 c @ map (Leaf c) [0..<rowCount cats c]"
    have len: "length pre = j + 1"
      using p last by (simp add: pos_def pre_def)
    have sp': "leaves cats = pre @ leaves_between cats (Suc c) (length cats)"
      using sp by (simp add: pre_def)
    show ?thesis
    proof (cases "leaves_between cats (Suc c) (length cats)")
      case Nil
      with sp' len have "?n = j + 1" by simp
      moreover have "first_item cats = leaves cats ! 0"
        using j by (cases "leaves cats") (simp_all add: first_item_leaves)
      ultimately show ?thesis using False Nil nav by simp
    next
      case (Cons x xs)
      with sp' len have "j + 1 < ?n" by simp
      moreover have "leaves cats ! (j + 1) = x"
        using sp' len Cons nth_append_length [of pre x xs] by simp
      ultimately show ?thesis using False Cons nav by simp
    qed
  qed
qed

lemma step_up:
  assumes j: "j < length (leaves cats)"
  shows "fst (next_idx_from cats (leaves cats ! j) True) =
         leaves cats ! ((j + (length (leaves cats) - 1)) mod length (leaves cats))"
proof -
  let ?n = "length (leaves cats)"
  from pos_nth [OF j] obtain c r where
    l: "leaves cats ! j = Leaf c r" and m: "in_model cats (Leaf c r)" and p: "pos cats c r = j"
    by blast
  from m have c: "c < length cats" and r: "r < rowCount cats c" by simp_all
  note sp = leaves_split_at [OF c]
  have nav: "fst (next_idx_from cats (leaves cats ! j) True) =
     (case r of
        0 \<Rightarrow> (case rev (leaves_between cats 0 c) of [] \<Rightarrow> last_item cats | l # _ \<Rightarrow> l)
      | Suc q \<Rightarrow> Leaf c q)"
    by (simp add: l next_idx_from_def loop_up_leaf [OF m])
  have wrap: "(Suc k + (?n - 1)) mod ?n = k" if "k < ?n" for k
  proof -
    have "Suc k + (?n - 1) = k + ?n" using that by simp
    with that show ?thesis by simp
  qed
  show ?thesis
  proof (cases r)
    case (Suc q)
    then have m': "in_model cats (Leaf c q)" using c r by simp
    have pq: "Suc (pos cats c q) = j" using p Suc by (simp add: pos_def)
    from nth_pos [OF m'] have "pos cats c q < ?n" "leaves cats ! pos cats c q = Leaf c q"
      by simp_all
    with wrap [of "pos cats c q"] pq Suc nav show ?thesis by auto
  next
    case 0
    with p have len: "length (leaves_between cats 0 c) = j" by (simp add: pos_def)
    show ?thesis
    proof (cases "rev (leaves_between cats 0 c)")
      case Nil
      with len have j0: "j = 0" by simp
      have "leaves cats \<noteq> []" using j by auto
      then obtain ys y where ys: "leaves cats = ys @ [y]"
        by (cases "leaves cats" rule: rev_exhaust) simp_all
      then have "last_item cats = leaves cats ! (?n - 1)"
        by (simp add: last_item_leaves)
      with 0 Nil j0 j nav show ?thesis by simp
    next
      case (Cons x xs)
      then have pre: "leaves_between cats 0 c = rev xs @ [x]"
        by (metis rev.simps(2) rev_rev_ident)
      with len obtain k where k: "j = Suc k" "length xs = k" by auto
      have "leaves cats ! k = x"
        using sp pre k by (simp add: nth_append)
      moreover have "k < ?n" using k j by simp
      ultimately show ?thesis using 0 Cons wrap [of k] k nav by simp
    qed
  qed
qed

lemma cycle_iterate:
  assumes step: "\<And>j. j < length L \<Longrightarrow> f (L ! j) = L ! ((j + d) mod length L)"
    and j: "j < length L"
  shows "(f ^^ k) (L ! j) = L ! ((j + k * d) mod length L)"
proof (induction k)
  case 0
  with j show ?case by simp
next
  case (Suc k)
  have "0 < length L" using j by auto
  then have lt: "(j + k * d) mod length L < length L" by simp
  have "(f ^^ Suc k) (L ! j) = f (L ! ((j + k * d) mod length L))"
    using Suc by simp
  also have "\<dots> = L ! (((j + k * d) mod length L + d) mod length L)"
    by (rule step [OF lt])
  also have "((j + k * d) mod length L + d) mod length L = (j + k * d + d) mod length L"
    by (rule mod_add_left_eq)
  also have "j + k * d + d = j + Suc k * d"
    by simp
  finally show ?case .
qed

lemma closure:
  assumes m: "in_model cats (Leaf c r)"
  shows "((\<lambda>i. fst (next_idx_from cats i upwards)) ^^ item_count cats) (Leaf c r) = Leaf c r"
proof -
  let ?L = "leaves cats"
  let ?f = "\<lambda>i. fst (next_idx_from cats i upwards)"
  let ?d = "if upwards then length ?L - 1 else 1"
  from nth_pos [OF m] have j: "pos cats c r < length ?L" and l: "?L ! pos cats c r = Leaf c r"
    by simp_all
  have step: "\<And>j. j < length ?L \<Longrightarrow> ?f (?L ! j) = ?L ! ((j + ?d) mod length ?L)"
    using step_down [of _ cats] step_up [of _ cats] by (cases upwards) simp_all
  have "(?f ^^ length ?L) (?L ! pos cats c r) = ?L ! ((pos cats c r + length ?L * ?d) mod length ?L)"
    using step j by (rule cycle_iterate)
  with j l show ?thesis by (simp add: length_leaves)
qed

lemma filter_upt_first:
  "filter P [a..<b] = c # cs \<Longrightarrow> a \<le> c \<and> c < b \<and> P c \<and> (\<forall>k. a \<le> k \<and> k < c \<longrightarrow> \<not> P k)"
proof (induction "b - a" arbitrary: a)
  case 0
  then show ?case by simp
next
  case (Suc n)
  then have ab: "a < b" by simp
  then have up: "[a..<b] = a # [Suc a..<b]" by (rule upt_conv_Cons)
  show ?case
  proof (cases "P a")
    case True
    with Suc.prems up have "c = a" by simp
    with True ab show ?thesis by auto
  next
    case False
    with Suc.prems up have f: "filter P [Suc a..<b] = c # cs" by simp
    have n: "n = b - Suc a" using Suc.hyps(2) by simp
    from Suc.hyps(1) [OF n f]
    have IH: "Suc a \<le> c \<and> c < b \<and> P c \<and> (\<forall>k. Suc a \<le> k \<and> k < c \<longrightarrow> \<not> P k)" .
    have "\<not> P k" if "a \<le> k" "k < c" for k
    proof (cases "k = a")
      case True
      with False show ?thesis by simp
    next
      case ne: False
      with that have "Suc a \<le> k" by simp
      with IH that show ?thesis by simp
    qed
    with IH show ?thesis by auto
  qed
qed

lemma first_item_first:
  assumes "0 < item_count cats"
  shows "\<exists>c. first_item cats = Leaf c 0 \<and> c < length cats \<and> 0 < rowCount cats c \<and>
             (\<forall>k<c. rowCount cats k = 0)"
proof (cases "filter (\<lambda>c. 0 < rowCount cats c) [0..<length cats]")
  case Nil
  then have "first_item cats = Invalid" by (simp add: first_item_def)
  moreover have "0 < length (leaves cats)" using assms by (simp add: length_leaves)
  moreover from this obtain c r where "leaves cats ! 0 = Leaf c r"
    using pos_nth [of 0 cats] by blast
  ultimately have False
    by (cases "leaves cats") (simp_all add: first_item_leaves)
  then show ?thesis ..
next
  case (Cons c cs)
  from filter_upt_first [OF Cons] Cons show ?thesis
    by (auto simp: first_item_def)
qed

section \<open>Properties of the handlers\<close>

subsection \<open>The trace, the flag and the invariant\<close>

lemma apply_pattern_emitted: "emitted (state_of (apply_pattern env st parts cp)) = emitted st"
  by (simp add: apply_pattern_def hide_def show_view_def Let_def split: sum.splits option.splits)

lemma on_update_emitted: "emitted (state_of (on_update_completion env st ev)) = emitted st"
  by (cases ev)
     (simp add: on_update_completion_def update_completion_def apply_pattern_emitted hide_def
        set_model_def Let_def split: option.splits)

lemma deliver_emitted: "emitted (deliver env st evs) = emitted st"
  unfolding deliver_def
  by (induction evs arbitrary: st) (simp_all add: on_update_emitted)

lemma deliver_ignored: "ignore_change st \<Longrightarrow> deliver env st evs = st"
  unfolding deliver_def
  by (induction evs) (simp_all add: on_update_completion_def)

lemma apply_pattern_inv:
  "view_inv st \<Longrightarrow> lastmodel st \<noteq> None \<Longrightarrow>
   view_inv (state_of (apply_pattern env st parts cp))"
  by (auto simp: apply_pattern_def hide_def show_view_def Let_def view_inv_def
      split: sum.splits option.splits)

lemma on_update_inv: "view_inv st \<Longrightarrow> view_inv (state_of (on_update_completion env st ev))"
proof -
  assume inv: "view_inv st"
  obtain prefix parts cp where ev: "ev = (prefix, parts, cp)" by (cases ev)
  show ?thesis
  proof (cases "get_new_completion env parts cp")
    case None
    with inv show ?thesis
      by (auto simp: ev on_update_completion_def update_completion_def hide_def view_inv_def)
  next
    case (Some r)
    have "view_inv (set_model (st\<lparr>lastmodel := Some r\<rparr>) r)"
      using inv by (simp add: view_inv_def set_model_def)
    then have "view_inv (state_of (apply_pattern env (set_model (st\<lparr>lastmodel := Some r\<rparr>) r) parts cp))"
      by (rule apply_pattern_inv) (simp add: set_model_def)
    moreover have "lastmodel st = Some r \<Longrightarrow> view_inv (state_of (apply_pattern env st parts cp))"
      using inv by (intro apply_pattern_inv) simp_all
    moreover have "view_inv (hide st)"
      using inv by (simp add: hide_def view_inv_def)
    ultimately show ?thesis
      using inv
      by (auto simp: ev Some on_update_completion_def update_completion_def Let_def
          split: option.splits)
  qed
qed

lemma deliver_inv: "view_inv st \<Longrightarrow> view_inv (deliver env st evs)"
  unfolding deliver_def
  by (induction evs arbitrary: st) (simp_all add: on_update_inv)

lemma provisional_emit:
  "(emit_change_completed_part env (st\<lparr>ignore_change := True\<rparr>) d False)\<lparr>ignore_change := False\<rparr>
   = st\<lparr>ignore_change := False, emitted := emitted st @ [(d, False)]\<rparr>"
  by (simp add: emit_change_completed_part_def deliver_ignored)

lemma selectionChanged_inv:
  assumes "view_inv st"
  shows "view_inv (state_of (selectionChanged env st idxs))"
proof -
  have imm: "view_inv (emit_change_completed_part env st d True)" for d
    unfolding emit_change_completed_part_def
    using assms by (intro deliver_inv) (simp add: view_inv_def)
  have prov: "view_inv (st\<lparr>ignore_change := False, emitted := emitted st @ [(d, False)]\<rparr>)" for d
    using assms by (simp add: view_inv_def)
  show ?thesis
    using assms imm prov
    by (simp add: selectionChanged_def provisional_emit split: list.splits option.splits)
qed

lemma setCurrentIndex_inv:
  assumes "view_inv st"
  shows "view_inv (state_of (setCurrentIndex env st idx))"
proof -
  have "view_inv (st\<lparr>current := idx\<rparr>)" using assms by (simp add: view_inv_def)
  then have "view_inv (state_of (selectionChanged env (st\<lparr>current := idx\<rparr>) sel))" for sel
    by (rule selectionChanged_inv)
  with assms show ?thesis by (simp add: setCurrentIndex_def)
qed

lemma next_idx_inv:
  "view_inv st \<Longrightarrow> next_idx env st upwards = Inr (idx, st1) \<Longrightarrow> view_inv st1"
  by (auto simp: next_idx_def view_inv_def split: option.splits prod.splits)

lemma next_prev_item_inv:
  assumes "view_inv st"
  shows "view_inv (state_of (next_prev_item env st prev))"
proof (cases "next_idx env st prev")
  case (Inl e)
  with assms show ?thesis by (simp add: next_prev_item_def)
next
  case (Inr p)
  obtain idx st1 where p: "p = (idx, st1)" by (cases p)
  with Inr assms have "view_inv st1" by (auto dest: next_idx_inv)
  then have "view_inv (state_of (setCurrentIndex env st1 idx))" by (rule setCurrentIndex_inv)
  with assms Inr p show ?thesis by (simp add: next_prev_item_def)
qed

lemma reachable_inv: "reachable env st \<Longrightarrow> view_inv st"
proof (induction rule: reachable.induct)
  case created
  show ?case by (simp add: init_def view_inv_def)
next
  case (text_changed st ev)
  then show ?case by (simp add: on_update_inv)
next
  case (tab st)
  then show ?case by (simp add: completion_item_next_def next_prev_item_inv)
next
  case (shift_tab st)
  then show ?case by (simp add: completion_item_prev_def next_prev_item_inv)
next
  case (clicked st idx)
  then show ?case by (simp add: setCurrentIndex_inv)
next
  case (selection st idxs)
  then show ?case by (simp add: selectionChanged_inv)
next
  case (cleared st)
  then show ?case by (auto simp: on_clear_completion_selection_def view_inv_def split: option.splits)
next
  case (config_changed st b)
  then show ?case by (simp add: view_inv_def)
qed

lemma on_update_flag: "ignore_change (state_of (on_update_completion env st ev)) = ignore_change st"
  by (cases ev)
     (auto simp: on_update_completion_def update_completion_def apply_pattern_def hide_def
        show_view_def set_model_def Let_def split: option.splits sum.splits)

lemma deliver_flag: "ignore_change (deliver env st evs) = ignore_change st"
  unfolding deliver_def
  by (induction evs arbitrary: st) (simp_all add: on_update_flag)

lemma selectionChanged_flag:
  "\<not> ignore_change st \<Longrightarrow> \<not> ignore_change (state_of (selectionChanged env st idxs))"
  by (simp add: selectionChanged_def emit_change_completed_part_def deliver_flag
      split: list.splits option.splits)

lemma next_prev_item_flag:
  assumes "\<not> ignore_change st"
  shows "\<not> ignore_change (state_of (next_prev_item env st prev))"
proof (cases "next_idx env st prev")
  case (Inl e)
  with assms show ?thesis by (simp add: next_prev_item_def)
next
  case (Inr p)
  obtain idx st1 where p: "p = (idx, st1)" by (cases p)
  with Inr assms have st1: "\<not> ignore_change st1"
    by (auto simp: next_idx_def split: option.splits prod.splits)
  then have "\<not> ignore_change (st1\<lparr>current := idx\<rparr>)" by simp
  then have "\<not> ignore_change (state_of (selectionChanged env (st1\<lparr>current := idx\<rparr>) sel))" for sel
    by (rule selectionChanged_flag)
  with assms st1 Inr p show ?thesis by (simp add: next_prev_item_def setCurrentIndex_def)
qed

lemma selectionChanged_emitted:
  "emitted (state_of (selectionChanged env st idxs)) =
   emitted st @
     (case idxs of
        [] \<Rightarrow> []
      | i # _ \<Rightarrow>
          (case model st of
             None \<Rightarrow> []
           | Some r \<Rightarrow>
               (case data (shown env (heap st r)) i of
                  None \<Rightarrow> []
                | Some d \<Rightarrow> [(d, item_count (shown env (heap st r)) = 1 \<and> quick_complete env)])))"
  by (simp add: selectionChanged_def emit_change_completed_part_def deliver_emitted
      split: list.splits option.splits)

lemma apply_pattern_raises:
  assumes "model st = Some r"
  shows "raises (apply_pattern env st parts cp) =
     (if parts = [] \<or> (- int (length parts) \<le> cp \<and> cp < int (length parts)) then None
      else Some IndexError)"
  using assms
  by (auto simp: apply_pattern_def getitem_def Let_def)

lemma apply_pattern_pattern:
  assumes "model st = Some r" and "raises (apply_pattern env st parts cp) = None"
  shows "pattern (heap (state_of (apply_pattern env st parts cp)) r) =
     (if parts = [] then []
      else if 0 \<le> cp then parts ! nat cp else parts ! nat (int (length parts) + cp))"
  using assms
  by (auto simp: apply_pattern_def getitem_def Let_def hide_def show_view_def mark_all_items_def
      split: if_splits)

section \<open>The claims\<close>

subsection \<open>C1: a cursor part out of range\<close>

text \<open>
  C1, as the code has it. For a reachable state and a command line (prefix \<open>:\<close>) that
  the completer resolves to a model, \<^verbatim>\<open>on_update_completion\<close> returns normally exactly
  when the parts are empty or the cursor part is an index Python accepts for the parts
  (from minus the length up to the length, not included); any other cursor part on
  non-empty parts leaves the handler with \<^verbatim>\<open>IndexError\<close>. When it returns, the pattern set
  on the model is the empty string for empty parts and the part at the cursor index
  otherwise. There is no clamping: only the empty list of parts is guarded.
\<close>

theorem update_pattern_index:
  assumes "reachable env st" and "get_new_completion env parts cp = Some r"
  shows "raises (on_update_completion env st ('':'', parts, cp)) =
           (if parts = [] \<or> (- int (length parts) \<le> cp \<and> cp < int (length parts)) then None
            else Some IndexError) \<and>
         (raises (on_update_completion env st ('':'', parts, cp)) = None \<longrightarrow>
            pattern (heap (state_of (on_update_completion env st ('':'', parts, cp))) r) =
              (if parts = [] then []
               else if 0 \<le> cp then parts ! nat cp else parts ! nat (int (length parts) + cp)))"
proof -
  from assms(1) have inv: "view_inv st" by (rule reachable_inv)
  define st' where
    "st' = (if Some r \<noteq> lastmodel st then set_model (st\<lparr>lastmodel := Some r\<rparr>) r else st)"
  have m: "model st' = Some r"
    using inv by (auto simp: st'_def set_model_def view_inv_def)
  have "on_update_completion env st ('':'', parts, cp) = apply_pattern env st' parts cp"
    using inv assms(2)
    by (auto simp: on_update_completion_def update_completion_def st'_def view_inv_def
        split: option.splits)
  with apply_pattern_raises [OF m] apply_pattern_pattern [OF m] show ?thesis by simp
qed

text \<open>
  An instance: on the fresh view, the bare command line \<open>:\<close> (no parts, cursor part 0)
  gives the command names with the empty pattern.
\<close>

theorem update_pattern_index_witness:
  "reachable example_env (init example_env) \<and>
   get_new_completion example_env [] 0 = Some 0 \<and>
   raises (on_update_completion example_env (init example_env) ('':'', [], 0)) = None \<and>
   pattern (heap (state_of (on_update_completion example_env (init example_env) ('':'', [], 0))) 0)
     = []"
proof -
  have h1: "reachable example_env (init example_env)" by (rule reachable.created)
  have h2: "get_new_completion example_env [] 0 = Some 0" by (simp add: example_env_def)
  from update_pattern_index [OF h1 h2] h1 h2 show ?thesis by simp
qed

text \<open>
  The claim as stated fails: for the parts \<^verbatim>\<open>['set']\<close> the cursor part 1 is out of
  range, the completer resolves the line to the values of a setting, and the handler
  ends with \<^verbatim>\<open>IndexError\<close> instead of taking the empty pattern.
\<close>

theorem out_of_range_raises_counterexample:
  "\<not> (1::int) < int (length [''set'']) \<and>
   raises (on_update_completion example_env (init example_env) ('':'', [''set''], 1))
     = Some IndexError"
  by code_simp

subsection \<open>C2: the first step, with nothing selected\<close>

text \<open>
  C2, as the code has it. For every tree with at least one leaf, \<^verbatim>\<open>_next_idx\<close> called
  with no current index returns \<^verbatim>\<open>first_item()\<close> in both directions: the first
  leaf of the first non-empty category, forward and backward alike.
\<close>

theorem next_idx_without_selection:
  assumes "0 < item_count cats"
  shows "fst (next_idx_from cats Invalid False) = first_item cats \<and>
         fst (next_idx_from cats Invalid True) = first_item cats \<and>
         (\<exists>c. first_item cats = Leaf c 0 \<and> c < length cats \<and> 0 < rowCount cats c \<and>
              (\<forall>k<c. rowCount cats k = 0))"
  using first_item_first [OF assms] by (simp add: next_idx_from_def)

theorem next_idx_without_selection_witness:
  "0 < item_count example_tree \<and>
   fst (next_idx_from example_tree Invalid False) = first_item example_tree \<and>
   fst (next_idx_from example_tree Invalid True) = first_item example_tree"
proof -
  have h: "0 < item_count example_tree" by code_simp
  from next_idx_without_selection [OF h] h show ?thesis by simp
qed

text \<open>
  The claim as stated fails for the backward direction: in a tree of three leaves the
  last leaf of the last non-empty category is row 0 of category 2, and shift-tab with
  nothing selected gives row 0 of category 0.
\<close>

theorem backward_without_selection_counterexample:
  "0 < item_count example_tree \<and>
   fst (next_idx_from example_tree Invalid True) = Leaf 0 0 \<and>
   last_item example_tree = Leaf 2 0"
  by code_simp

subsection \<open>C3: quick-complete decides between immediate and provisional\<close>

text \<open>
  C3. When \<^verbatim>\<open>selectionChanged\<close> is entered with the flag off and the first selected
  index has data \<open>d\<close> in a model of exactly one item: with quick-complete on it emits
  \<open>(d, True)\<close> and nothing else; with quick-complete off it emits \<open>(d, False)\<close> with
  \<^verbatim>\<open>_ignore_change\<close> set before the emission and cleared after it, so that the state it
  returns differs from the one it was entered with by the emission alone, whatever the
  slots sent back.
\<close>

theorem quick_complete_decides_immediate:
  assumes "\<not> ignore_change st" and "model st = Some r"
    and "data (shown env (heap st r)) i = Some d"
    and "item_count (shown env (heap st r)) = 1"
  shows "(quick_complete env \<longrightarrow>
            selectionChanged env st (i # rest) =
              Returned (emit_change_completed_part env st d True) \<and>
            emitted (state_of (selectionChanged env st (i # rest))) = emitted st @ [(d, True)]) \<and>
         (\<not> quick_complete env \<longrightarrow>
            selectionChanged env st (i # rest) =
              Returned ((emit_change_completed_part env (st\<lparr>ignore_change := True\<rparr>) d False)
                          \<lparr>ignore_change := False\<rparr>) \<and>
            selectionChanged env st (i # rest) =
              Returned (st\<lparr>emitted := emitted st @ [(d, False)]\<rparr>))"
proof -
  let ?guarded = "(emit_change_completed_part env (st\<lparr>ignore_change := True\<rparr>) d False)
                    \<lparr>ignore_change := False\<rparr>"
  have imm: "selectionChanged env st (i # rest) =
      Returned (emit_change_completed_part env st d True)" if "quick_complete env"
    using assms that by (simp add: selectionChanged_def)
  have trace: "emitted (emit_change_completed_part env st d True) = emitted st @ [(d, True)]"
    by (simp add: emit_change_completed_part_def deliver_emitted)
  have prov: "selectionChanged env st (i # rest) = Returned ?guarded" if "\<not> quick_complete env"
    using assms that by (simp add: selectionChanged_def)
  have "st\<lparr>ignore_change := False, emitted := emitted st @ [(d, False)]\<rparr> =
        st\<lparr>emitted := emitted st @ [(d, False)]\<rparr>"
    using assms(1) by (cases st) simp
  then have unguarded: "?guarded = st\<lparr>emitted := emitted st @ [(d, False)]\<rparr>"
    by (simp only: provisional_emit)
  from imm trace prov unguarded show ?thesis by simp
qed

text \<open>
  An instance: after \<^verbatim>\<open>:open-\<close> was typed the only item left is \<^verbatim>\<open>open-tab\<close>; selecting
  it emits immediately with quick-complete on, provisionally with quick-complete off.
\<close>

theorem quick_complete_decides_immediate_witness:
  "\<not> ignore_change typed_open \<and> model typed_open = Some 0 \<and>
   data (shown example_env (heap typed_open 0)) (Leaf 0 0) = Some ''open-tab'' \<and>
   item_count (shown example_env (heap typed_open 0)) = 1 \<and>
   quick_complete example_env \<and>
   emitted (state_of (selectionChanged example_env typed_open [Leaf 0 0])) =
     emitted typed_open @ [(''open-tab'', True)] \<and>
   \<not> quick_complete (example_env\<lparr>quick_complete := False\<rparr>) \<and>
   selectionChanged (example_env\<lparr>quick_complete := False\<rparr>) typed_open [Leaf 0 0] =
     Returned (typed_open\<lparr>emitted := emitted typed_open @ [(''open-tab'', False)]\<rparr>)"
proof -
  let ?off = "example_env\<lparr>quick_complete := False\<rparr>"
  have h1: "\<not> ignore_change typed_open" by code_simp
  have h2: "model typed_open = Some 0" by code_simp
  have h3: "data (shown example_env (heap typed_open 0)) (Leaf 0 0) = Some ''open-tab''"
    by code_simp
  have h4: "item_count (shown example_env (heap typed_open 0)) = 1" by code_simp
  have q: "quick_complete example_env" by code_simp
  have h3': "data (shown ?off (heap typed_open 0)) (Leaf 0 0) = Some ''open-tab''"
    by code_simp
  have h4': "item_count (shown ?off (heap typed_open 0)) = 1" by code_simp
  have q': "\<not> quick_complete ?off" by simp
  from quick_complete_decides_immediate [OF h1 h2 h3 h4, of "[]"]
       quick_complete_decides_immediate [OF h1 h2 h3' h4', of "[]"] h1 h2 h3 h4 q q'
  show ?thesis by blast
qed

subsection \<open>C4: text changes during the provisional write-back\<close>



subsection \<open>C5: the flag is off between calls\<close>

text \<open>
  C5. In every reachable state \<^verbatim>\<open>_ignore_change\<close> is off, and each of
  \<^verbatim>\<open>on_update_completion\<close>, \<^verbatim>\<open>selectionChanged\<close>, \<^verbatim>\<open>completion_item_next\<close> and
  \<^verbatim>\<open>completion_item_prev\<close>, entered with the flag off, leaves it off, whether the call
  returns or raises.
\<close>

theorem ignore_change_is_transient:
  "(reachable env st \<longrightarrow> \<not> ignore_change st) \<and>
   (\<not> ignore_change st \<longrightarrow>
      \<not> ignore_change (state_of (on_update_completion env st ev)) \<and>
      \<not> ignore_change (state_of (selectionChanged env st idxs)) \<and>
      \<not> ignore_change (state_of (completion_item_next env st)) \<and>
      \<not> ignore_change (state_of (completion_item_prev env st)))"
  using reachable_inv [of env st]
  by (simp add: view_inv_def on_update_flag selectionChanged_flag next_prev_item_flag
      completion_item_next_def completion_item_prev_def)

theorem ignore_change_is_transient_witness:
  "reachable example_env typed_set \<and> \<not> ignore_change typed_set \<and>
   \<not> ignore_change (state_of (on_update_completion example_env typed_set ('':'', [''set''], 1))) \<and>
   \<not> ignore_change (state_of (selectionChanged example_env typed_set [Leaf 0 0])) \<and>
   \<not> ignore_change (state_of (completion_item_next example_env typed_set)) \<and>
   \<not> ignore_change (state_of (completion_item_prev example_env typed_set))"
proof -
  have h: "reachable example_env typed_set"
    unfolding typed_set_def by (rule reachable.text_changed [OF reachable.created])
  from ignore_change_is_transient [of example_env typed_set "('':'', [''set''], 1)" "[Leaf 0 0]"] h
  show ?thesis by blast
qed

subsection \<open>C6: no completion source\<close>

text \<open>
  C6. In every reachable state, a text change whose prefix is not \<open>:\<close>, or for which
  the completer has no model, makes \<^verbatim>\<open>on_update_completion\<close> return with the view
  hidden; nothing else changes, except that \<^verbatim>\<open>_lastmodel\<close> becomes \<^verbatim>\<open>None\<close> when the
  completer was asked. No pattern is set, no model is installed, nothing is emitted.
\<close>

theorem no_source_hides:
  assumes "reachable env st"
    and "prefix \<noteq> '':'' \<or> get_new_completion env parts cp = None"
  shows "on_update_completion env st (prefix, parts, cp) =
           Returned (hide (st\<lparr>lastmodel := (if prefix \<noteq> '':'' then lastmodel st else None)\<rparr>)) \<and>
         \<not> visible (state_of (on_update_completion env st (prefix, parts, cp)))"
proof -
  from assms(1) have inv: "view_inv st" by (rule reachable_inv)
  have same: "lastmodel st = None \<Longrightarrow> st\<lparr>lastmodel := None, visible := False\<rparr> = st"
    using inv by (cases st) (simp add: view_inv_def)
  show ?thesis
    using inv assms(2) same
    by (auto simp: on_update_completion_def update_completion_def hide_def view_inv_def)
qed

text \<open>
  An instance: the view shows the one match for \<^verbatim>\<open>:open-\<close>; a search (prefix \<open>/\<close>)
  hides it, and so does a command the completer knows nothing about.
\<close>

theorem no_source_hides_witness:
  "reachable example_env typed_open \<and> visible typed_open \<and>
   ''/'' \<noteq> '':'' \<and>
   \<not> visible (state_of (on_update_completion example_env typed_open (''/'', [''open''], 0))) \<and>
   get_new_completion example_env [''quit'', ''now''] 1 = None \<and>
   \<not> visible (state_of (on_update_completion example_env typed_open
                 ('':'', [''quit'', ''now''], 1)))"
proof -
  have h1: "reachable example_env typed_open"
    unfolding typed_open_def by (rule reachable.text_changed [OF reachable.created])
  have v: "visible typed_open" by code_simp
  have h2: "''/'' \<noteq> '':'' \<or> get_new_completion example_env [''open''] 0 = None" by simp
  have n: "get_new_completion example_env [''quit'', ''now''] 1 = None"
    by (simp add: example_env_def)
  then have h3: "'':'' \<noteq> '':'' \<or> get_new_completion example_env [''quit'', ''now''] 1 = None"
    by simp
  from no_source_hides [OF h1 h2] no_source_hides [OF h1 h3] h1 v n show ?thesis
    by (simp add: hide_def)
qed

subsection \<open>C7: going round\<close>

text \<open>
  C7. For every tree with at least one leaf and every leaf of it, as many steps of
  \<^verbatim>\<open>_next_idx\<close> in one direction as the tree has items lead back to the leaf; forward
  from the last leaf the step gives the first leaf of the first non-empty category,
  backward from the first leaf it gives the last leaf of the last non-empty category.
\<close>

theorem wraparound_closure:
  assumes "0 < item_count cats" and "in_model cats (Leaf c r)"
  shows "((\<lambda>i. fst (next_idx_from cats i upwards)) ^^ item_count cats) (Leaf c r) = Leaf c r \<and>
         fst (next_idx_from cats (last_item cats) False) = first_item cats \<and>
         fst (next_idx_from cats (first_item cats) True) = last_item cats"
proof -
  let ?n = "length (leaves cats)"
  from assms(1) have n: "0 < ?n" by (simp add: length_leaves)
  then obtain ys y where ys: "leaves cats = ys @ [y]"
    by (cases "leaves cats" rule: rev_exhaust) simp_all
  have first: "first_item cats = leaves cats ! 0"
    using n by (cases "leaves cats") (simp_all add: first_item_leaves)
  have last: "last_item cats = leaves cats ! (?n - 1)"
    using ys by (simp add: last_item_leaves)
  have "fst (next_idx_from cats (leaves cats ! (?n - 1)) False) = leaves cats ! 0"
    using step_down [of "?n - 1" cats] n by simp
  moreover have "fst (next_idx_from cats (leaves cats ! 0) True) = leaves cats ! (?n - 1)"
    using step_up [of 0 cats] n by simp
  ultimately show ?thesis
    using closure [OF assms(2), of upwards] first last by simp
qed

theorem wraparound_closure_witness:
  "0 < item_count example_tree \<and> in_model example_tree (Leaf 2 0) \<and>
   ((\<lambda>i. fst (next_idx_from example_tree i True)) ^^ item_count example_tree) (Leaf 2 0)
     = Leaf 2 0 \<and>
   fst (next_idx_from example_tree (last_item example_tree) False) = first_item example_tree \<and>
   fst (next_idx_from example_tree (first_item example_tree) True) = last_item example_tree"
proof -
  have h1: "0 < item_count example_tree" by code_simp
  have h2: "in_model example_tree (Leaf 2 0)" by code_simp
  from wraparound_closure [OF h1 h2, of True] h1 h2 show ?thesis by blast
qed

subsection \<open>C8: never a category\<close>

text \<open>
  C8. For every tree, every current index and both directions, \<^verbatim>\<open>_next_idx\<close> returns
  and what it returns is never a category header: it is the invalid index, or a leaf
  of the tree, whose parent is valid.
\<close>

theorem next_idx_never_category:
  "(\<forall>c. fst (next_idx_from cats idx upwards) \<noteq> Category c) \<and>
   (fst (next_idx_from cats idx upwards) = Invalid \<or>
    in_model cats (fst (next_idx_from cats idx upwards)) \<and>
    isValid (parent (fst (next_idx_from cats idx upwards))))"
proof -
  have "fst (next_idx_from cats idx upwards) = Invalid \<or>
    in_model cats (fst (next_idx_from cats idx upwards)) \<and>
    isValid (parent (fst (next_idx_from cats idx upwards)))"
    using first_item_in_model [of cats] loop_leaf_or_none [of cats upwards idx]
    by (auto simp: next_idx_from_def)
  then show ?thesis by auto
qed

text \<open>An instance: started on the header of the empty category, the step lands on a leaf.\<close>

theorem next_idx_never_category_witness:
  "fst (next_idx_from example_tree (Category 1) False) = Leaf 2 0 \<and>
   (\<forall>c. fst (next_idx_from example_tree (Category 1) False) \<noteq> Category c)"
proof -
  have "fst (next_idx_from example_tree (Category 1) False) = Leaf 2 0" by code_simp
  with next_idx_never_category [of example_tree "Category 1" False] show ?thesis by blast
qed

subsection \<open>C9: when the selection is written back\<close>

text \<open>
  C9, as the code has it. \<^verbatim>\<open>selectionChanged\<close> emits \<^verbatim>\<open>change_completed_part\<close>
  exactly when indexes were selected and the model has data for the first of them, that
  is when \<^verbatim>\<open>data\<close> is not \<^verbatim>\<open>None\<close>. The test is for \<^verbatim>\<open>None\<close>, not for the empty
  string.
\<close>

theorem emission_needs_data:
  "emitted (state_of (selectionChanged env st idxs)) \<noteq> emitted st \<longleftrightarrow>
   idxs \<noteq> [] \<and> (\<exists>r d. model st = Some r \<and> data (shown env (heap st r)) (hd idxs) = Some d)"
  by (auto simp: selectionChanged_emitted split: list.splits option.splits)

theorem emission_needs_data_witness:
  "model typed_set = Some 1 \<and>
   data (shown example_env (heap typed_set 1)) (hd [Leaf 1 0]) = Some ''false'' \<and>
   emitted (state_of (selectionChanged example_env typed_set [Leaf 1 0])) \<noteq> emitted typed_set \<and>
   emitted (state_of (selectionChanged example_env typed_set [])) = emitted typed_set"
proof -
  have h1: "model typed_set = Some 1" by code_simp
  have h2: "data (shown example_env (heap typed_set 1)) (hd [Leaf 1 0]) = Some ''false''"
    by code_simp
  from emission_needs_data [of example_env typed_set "[Leaf 1 0]"]
       emission_needs_data [of example_env typed_set "[]"] h1 h2
  show ?thesis by blast
qed

text \<open>
  The claim as stated fails: the current value of the setting is the empty string, the
  item showing it has the empty string as its text, and selecting it emits the empty
  text.
\<close>

theorem empty_text_is_emitted_counterexample:
  "data (shown example_env (heap typed_set 1)) (Leaf 0 0) = Some [] \<and>
   emitted typed_set = [] \<and>
   emitted (state_of (selectionChanged example_env typed_set [Leaf 0 0])) = [([], False)]"
  by code_simp

subsection \<open>C10: tab on a hidden view\<close>

text \<open>
  C10. When the view is not visible, \<^verbatim>\<open>completion_item_next\<close> and
  \<^verbatim>\<open>completion_item_prev\<close> return the state they were given: the current index, the
  trace of emissions and everything else are as before.
\<close>

theorem hidden_view_ignores_tab:
  "\<not> visible st \<Longrightarrow>
   completion_item_next env st = Returned st \<and> completion_item_prev env st = Returned st"
  by (simp add: completion_item_next_def completion_item_prev_def next_prev_item_def)

theorem hidden_view_ignores_tab_witness:
  "\<not> visible (init example_env) \<and>
   completion_item_next example_env (init example_env) = Returned (init example_env) \<and>
   completion_item_prev example_env (init example_env) = Returned (init example_env)"
proof -
  have h: "\<not> visible (init example_env)" by (simp add: init_def)
  from hidden_view_ignores_tab [OF h] h show ?thesis by blast
qed

end
